theory Spec2Isabelle
  imports Complex_Main "HOL-Library.Monad_Syntax"
begin

section \<open>Scalars and vectors of stockAssessmentFuns.hpp\<close>

text \<open>
  The template parameter \<open>Type\<close> of the library is read as the reals. Where the real value
  of an operation does not exist (a quotient by zero, the logarithm of a number that is not
  positive: the places where IEEE arithmetic leaves the finite numbers with an infinity or
  a NaN) the model yields \<open>None\<close>, and so does a read outside a vector. A \<open>vector<Type>\<close>
  is a list of reals, an \<open>int\<close> is an integer.
\<close>

definition rdiv :: "real \<Rightarrow> real \<Rightarrow> real option" where
  "rdiv a b = (if b = 0 then None else Some (a / b))"

definition rlog :: "real \<Rightarrow> real option" where
  "rlog a = (if 0 < a then Some (ln a) else None)"

text \<open>\<open>CppAD::CondExpLt\<close> and \<open>CppAD::CondExpGe\<close>: both operands are evaluated, one is selected.\<close>

definition CondExpLt :: "real \<Rightarrow> real \<Rightarrow> 'a \<Rightarrow> 'a \<Rightarrow> 'a" where
  "CondExpLt l r t f = (if l < r then t else f)"

definition CondExpGe :: "real \<Rightarrow> real \<Rightarrow> 'a \<Rightarrow> 'a \<Rightarrow> 'a" where
  "CondExpGe l r t f = (if l \<ge> r then t else f)"

section \<open>posfun\<close>

text \<open>
  \<^verbatim>\<open>pen += CppAD::CondExpLt(x, eps, Type(0.01) * pow(x-eps,2), Type(0.));\<close>
  \<^verbatim>\<open>return CppAD::CondExpGe(x, eps, x, eps/(Type(2.0)-eps/x));\<close>
  The result is the returned value together with the new content of \<open>pen\<close>.
\<close>

definition posfun :: "real \<Rightarrow> real \<Rightarrow> real \<Rightarrow> real option \<times> real" where
  "posfun x eps pen =
     (let pen' = pen + CondExpLt x eps ((1 / 100) * (x - eps) ^ 2) 0
      in (CondExpGe x eps (Some x) (rdiv eps x \<bind> (\<lambda>q. rdiv eps (2 - q))), pen'))"

section \<open>square\<close>

text \<open>\<^verbatim>\<open>Type square(Type x){return pow(x,2);}\<close>\<close>

definition square :: "real \<Rightarrow> real" where
  "square x = x ^ 2"

section \<open>addCompNoise\<close>

text \<open>
  The loop over \<open>c\<close> takes the logarithm of every entry. The sum
  \<open>logInputComp + noise\<close> is coefficient-wise; operands of different sizes are outside
  what the vector type defines. \<open>outputComp /= tmpTotal\<close> divides every entry.
\<close>

definition addCompNoise :: "real list \<Rightarrow> real list \<Rightarrow> real list option" where
  "addCompNoise inputComp noise =
     do {
       logInputComp \<leftarrow> those (map rlog inputComp);
       if length noise \<noteq> length logInputComp then None
       else do {
         let outputComp = map exp (map2 (+) logInputComp noise);
         let tmpTotal = sum_list outputComp;
         those (map (\<lambda>v. rdiv v tmpTotal) outputComp)
       }
     }"

section \<open>CRmort\<close>

text \<open>
  The loop \<^verbatim>\<open>for( int a = kage-1; a < Aplus; a ++ )\<close> with its \<open>break\<close>, on the pair of
  \<open>ageObs\<close> and \<open>abar\<close>. A read of \<open>ageComp\<close> or a write of \<open>ageObs\<close> outside the vector
  is \<open>None\<close>.
\<close>

function CRmort_loop ::
  "real list \<Rightarrow> int \<Rightarrow> int \<Rightarrow> int \<Rightarrow> int \<Rightarrow> real list \<times> real \<Rightarrow> (real list \<times> real) option" where
  "CRmort_loop ageComp kage Aplus minObs a (ageObs, abar) =
     (if a < Aplus then
        (if a < 0 \<or> int (length ageComp) \<le> a then None
         else if ageComp ! nat a \<ge> real_of_int minObs then
           (if a - kage + 1 < 0 \<or> int (length ageObs) \<le> a - kage + 1 then None
            else CRmort_loop ageComp kage Aplus minObs (a + 1)
                   (ageObs[nat (a - kage + 1) := ageComp ! nat a],
                    abar + real_of_int (a - kage + 1) * ageComp ! nat a))
         else Some (ageObs, abar))
      else Some (ageObs, abar))"
  by pat_completeness auto
termination
  by (relation "measure (\<lambda>(ageComp, kage, Aplus, minObs, a, st). nat (Aplus - a))") auto

text \<open>
  The ages the specification says are recorded: of the entries of \<open>ageComp\<close> at the indices
  \<open>kage-1\<close> to \<open>Aplus-1\<close>, the longest prefix whose entries all reach \<open>minObs\<close>.
\<close>

definition recordedAges :: "real list \<Rightarrow> int \<Rightarrow> int \<Rightarrow> int \<Rightarrow> real list" where
  "recordedAges ageComp kage Aplus minObs =
     takeWhile (\<lambda>v. real_of_int minObs \<le> v)
       (take (nat (Aplus - kage + 1)) (drop (nat (kage - 1)) ageComp))"


section \<open>solveBaranovDD\<close>

text \<open>The variables that live across iterations: the outputs \<open>Z\<close>, \<open>F\<close> and the local \<open>newZ\<close>.\<close>

record nr_state =
  stZ :: real
  stF :: real
  stNewZ :: real

text \<open>
  One pass through the body of the loop. \<open>tmp\<close>, \<open>f\<close> and \<open>J\<close> are assigned before they are
  read in every pass, so they are local here.
\<close>

definition baranov_step :: "real \<Rightarrow> real \<Rightarrow> real \<Rightarrow> real \<Rightarrow> nr_state \<Rightarrow> nr_state option" where
  "baranov_step Bstep C M B s =
     do {
       let Z = stNewZ s;
       let F = stF s;
       tmp \<leftarrow> rdiv (B * (1 - exp (- Z)) * F) Z;
       let f = C - tmp;
       j1 \<leftarrow> rdiv ((1 - exp (- Z)) * M) (Z ^ 2);
       j2 \<leftarrow> rdiv (exp (- Z) * F) Z;
       let J = - B * (j1 + j2);
       d \<leftarrow> rdiv (Bstep * f) J;
       let F' = F - d;
       Some \<lparr>stZ = Z, stF = F', stNewZ = M + F'\<rparr>
     }"

text \<open>
  \<^verbatim>\<open>for( int i=0; i<nIter; i++ )\<close>: the body does not read \<open>i\<close>, so the loop is the body
  repeated, counted by the passes that remain.
\<close>

fun baranov_loop :: "real \<Rightarrow> real \<Rightarrow> real \<Rightarrow> real \<Rightarrow> nat \<Rightarrow> nr_state \<Rightarrow> nr_state option" where
  "baranov_loop Bstep C M B 0 s = Some s"
| "baranov_loop Bstep C M B (Suc k) s =
     (case baranov_step Bstep C M B s of
        None \<Rightarrow> None
      | Some s' \<Rightarrow> baranov_loop Bstep C M B k s')"

text \<open>The result is the pair of the outputs \<open>(Z, F)\<close>.\<close>

definition solveBaranovDD :: "int \<Rightarrow> real \<Rightarrow> real \<Rightarrow> real \<Rightarrow> real \<Rightarrow> (real \<times> real) option" where
  "solveBaranovDD nIter Bstep C M B =
     do {
       F \<leftarrow> rdiv C (C + B);
       s \<leftarrow> baranov_loop Bstep C M B (nat nIter) \<lparr>stZ = M + F, stF = F, stNewZ = M + F\<rparr>;
       Some (stZ s, stF s)
     }"

text \<open>
  The recurrence as the specification words it, on the reals with their total division:
  \<open>F\<^sub>0 = C/(C+B)\<close>, and from \<open>F\<^sub>i\<close> with \<open>Z\<^sub>i = M + F\<^sub>i\<close> the next iterate
  \<open>F\<^sub>i - Bstep * f / J\<close>.
\<close>

definition specJ :: "real \<Rightarrow> real \<Rightarrow> real \<Rightarrow> real" where
  "specJ M B F = (let Z = M + F in - B * ((1 - exp (- Z)) * M / Z ^ 2 + exp (- Z) * F / Z))"

fun specF :: "real \<Rightarrow> real \<Rightarrow> real \<Rightarrow> real \<Rightarrow> nat \<Rightarrow> real" where
  "specF Bstep C M B 0 = C / (C + B)"
| "specF Bstep C M B (Suc i) =
     (let F = specF Bstep C M B i;
          Z = M + F;
          tmp = B * (1 - exp (- Z)) * F / Z;
          f = C - tmp;
          J = specJ M B F
      in F - Bstep * f / J)"

section \<open>negLogLogisticNormal\<close>

text \<open>
  \<^verbatim>\<open>int N = y.size();\<close>
  \<^verbatim>\<open>Type ytilde = pow(y.prod(),1/N);\<close>
  \<^verbatim>\<open>Type ptilde = pow(p.prod(),1/N);\<close>
  \<open>1/N\<close> is a quotient of two \<open>int\<close>s, so the exponent is an integer.
\<close>

definition ytilde :: "real list \<Rightarrow> real option" where
  "ytilde y =
     (let N = int (length y)
      in if N = 0 then None else Some (power_int (prod_list y) (1 div N)))"

definition ptilde :: "real list \<Rightarrow> real list \<Rightarrow> real option" where
  "ptilde y p =
     (let N = int (length y)
      in if N = 0 then None else Some (power_int (prod_list p) (1 div N)))"

text \<open>The summand \<^verbatim>\<open>square(log(y(i)/ytilde) - log(p(i)/ptilde))/2/var\<close>.\<close>

definition residual :: "real list \<Rightarrow> real list \<Rightarrow> real \<Rightarrow> real \<Rightarrow> real \<Rightarrow> int \<Rightarrow> real option" where
  "residual y p yt pt var i =
     (if i < 0 \<or> int (length y) \<le> i \<or> int (length p) \<le> i then None
      else do {
        qy \<leftarrow> rdiv (y ! nat i) yt;
        ly \<leftarrow> rlog qy;
        qp \<leftarrow> rdiv (p ! nat i) pt;
        lp \<leftarrow> rlog qp;
        rdiv (square (ly - lp) / 2) var
      })"

function nld_loop ::
  "real list \<Rightarrow> real list \<Rightarrow> real \<Rightarrow> real \<Rightarrow> real \<Rightarrow> int \<Rightarrow> int \<Rightarrow> real \<Rightarrow> real option" where
  "nld_loop y p yt pt var N i nld =
     (if i < N then
        (case residual y p yt pt var i of
           None \<Rightarrow> None
         | Some r \<Rightarrow> nld_loop y p yt pt var N (i + 1) (nld + r))
      else Some nld)"
  by pat_completeness auto
termination
  by (relation "measure (\<lambda>(y, p, yt, pt, var, N, i, nld). nat (N - i))") auto

definition negLogLogisticNormal :: "real list \<Rightarrow> real list \<Rightarrow> real \<Rightarrow> real option" where
  "negLogLogisticNormal y p var =
     (let N = int (length y) in
      do {
        lnvar \<leftarrow> rlog var;
        yt \<leftarrow> ytilde y;
        pt \<leftarrow> ptilde y p;
        nld_loop y p yt pt var N 0 (0 + real_of_int (N - 1) * lnvar / 2)
      })"

section \<open>Double-precision arithmetic\<close>

text \<open>
  The library is compiled with \<open>Type = double\<close> (or a differentiable wrapper of it). A double
  is a finite number, a signed zero, an infinity or a NaN; \<open>Fin 0\<close> is \<open>+0\<close> and \<open>NZero\<close> is
  \<open>-0\<close>. The finite doubles are the reals \<open>m * 2^e\<close> with \<open>|m| < 2^53\<close> and
  \<open>-1074 \<le> e \<le> 971\<close>.
\<close>

datatype dbl = Fin real | NZero | PInf | MInf | NaN

text \<open>
  Rounding to nearest, ties to even: \<open>rne\<close> on the integers, \<open>rnd\<close> on the grid of the
  doubles around \<open>x\<close> (53 significant bits, the exponent not below that of the subnormal
  numbers), and \<open>fl\<close> the double that an operation with the exact nonzero result \<open>x\<close>
  delivers: an infinity once the rounded magnitude reaches \<open>2^1024\<close>, a zero with the sign of
  \<open>x\<close> on underflow.
\<close>

definition rne :: "real \<Rightarrow> int" where
  "rne y = (let f = \<lfloor>y\<rfloor> in
             if y - of_int f < 1 / 2 then f
             else if 1 / 2 < y - of_int f then f + 1
             else if even f then f else f + 1)"

definition ulp_exp :: "real \<Rightarrow> int" where
  "ulp_exp x = max \<lfloor>log 2 \<bar>x\<bar>\<rfloor> (- 1022) - 52"

definition rnd :: "real \<Rightarrow> real" where
  "rnd x = (if x = 0 then 0 else of_int (rne (x / power_int 2 (ulp_exp x))) * power_int 2 (ulp_exp x))"

definition fl :: "real \<Rightarrow> dbl" where
  "fl x = (let r = rnd x in
            if 2 ^ 1024 \<le> \<bar>r\<bar> then (if 0 < x then PInf else MInf)
            else if r = 0 then (if 0 \<le> x then Fin 0 else NZero)
            else Fin r)"

text \<open>
  The operations of IEEE 754, each rounded on its own (no fused multiply-add, no extended
  precision): the special cases first, then \<open>fl\<close> of the exact result. An exact zero sum is
  \<open>+0\<close> unless both operands are negative; a zero product or quotient has the sign of its
  operands.
\<close>

fun fin_val :: "dbl \<Rightarrow> real option" where
  "fin_val (Fin r) = Some r"
| "fin_val NZero = Some 0"
| "fin_val PInf = None"
| "fin_val MInf = None"
| "fin_val NaN = None"

fun is_neg :: "dbl \<Rightarrow> bool" where
  "is_neg (Fin r) = (r < 0)"
| "is_neg NZero = True"
| "is_neg PInf = False"
| "is_neg MInf = True"
| "is_neg NaN = False"

definition zero_of :: "bool \<Rightarrow> dbl" where
  "zero_of neg = (if neg then NZero else Fin 0)"

definition inf_of :: "bool \<Rightarrow> dbl" where
  "inf_of neg = (if neg then MInf else PInf)"

fun dneg :: "dbl \<Rightarrow> dbl" where
  "dneg (Fin r) = (if r = 0 then NZero else Fin (- r))"
| "dneg NZero = Fin 0"
| "dneg PInf = MInf"
| "dneg MInf = PInf"
| "dneg NaN = NaN"

definition dadd :: "dbl \<Rightarrow> dbl \<Rightarrow> dbl" where
  "dadd a b =
     (if a = NaN \<or> b = NaN then NaN
      else case (fin_val a, fin_val b) of
        (Some u, Some v) \<Rightarrow> if u + v = 0 then zero_of (is_neg a \<and> is_neg b) else fl (u + v)
      | (Some u, None) \<Rightarrow> b
      | (None, Some v) \<Rightarrow> a
      | (None, None) \<Rightarrow> if a = b then a else NaN)"

definition dsub :: "dbl \<Rightarrow> dbl \<Rightarrow> dbl" where
  "dsub a b = dadd a (dneg b)"

definition dmul :: "dbl \<Rightarrow> dbl \<Rightarrow> dbl" where
  "dmul a b =
     (if a = NaN \<or> b = NaN then NaN
      else case (fin_val a, fin_val b) of
        (Some u, Some v) \<Rightarrow> if u * v = 0 then zero_of (is_neg a \<noteq> is_neg b) else fl (u * v)
      | (Some u, None) \<Rightarrow> if u = 0 then NaN else inf_of (is_neg a \<noteq> is_neg b)
      | (None, Some v) \<Rightarrow> if v = 0 then NaN else inf_of (is_neg a \<noteq> is_neg b)
      | (None, None) \<Rightarrow> inf_of (is_neg a \<noteq> is_neg b))"

definition ddiv :: "dbl \<Rightarrow> dbl \<Rightarrow> dbl" where
  "ddiv a b =
     (if a = NaN \<or> b = NaN then NaN
      else case (fin_val a, fin_val b) of
        (Some u, Some v) \<Rightarrow>
          if v = 0 then (if u = 0 then NaN else inf_of (is_neg a \<noteq> is_neg b))
          else if u = 0 then zero_of (is_neg a \<noteq> is_neg b)
          else fl (u / v)
      | (Some u, None) \<Rightarrow> zero_of (is_neg a \<noteq> is_neg b)
      | (None, Some v) \<Rightarrow> inf_of (is_neg a \<noteq> is_neg b)
      | (None, None) \<Rightarrow> NaN)"

text \<open>\<open>exp\<close> of the C library, taken as correctly rounded.\<close>

fun dexp :: "dbl \<Rightarrow> dbl" where
  "dexp (Fin r) = fl (exp r)"
| "dexp NZero = Fin 1"
| "dexp PInf = PInf"
| "dexp MInf = Fin 0"
| "dexp NaN = NaN"

text \<open>The comparisons \<open><\<close> and \<open>>=\<close>; both are false when an operand is a NaN.\<close>

definition dlt :: "dbl \<Rightarrow> dbl \<Rightarrow> bool" where
  "dlt a b =
     (a \<noteq> NaN \<and> b \<noteq> NaN \<and>
      (case (fin_val a, fin_val b) of
         (Some u, Some v) \<Rightarrow> u < v
       | (Some u, None) \<Rightarrow> b = PInf
       | (None, Some v) \<Rightarrow> a = MInf
       | (None, None) \<Rightarrow> a = MInf \<and> b = PInf))"

definition dge :: "dbl \<Rightarrow> dbl \<Rightarrow> bool" where
  "dge a b = (a \<noteq> NaN \<and> b \<noteq> NaN \<and> \<not> dlt a b)"

section \<open>posfun and solveBaranovDD in double precision\<close>

text \<open>
  The two lines of posfun again, on doubles. \<open>Type(0.01)\<close> is the double nearest to \<open>1/100\<close>,
  \<open>pow(x-eps,2)\<close> the rounded square.
\<close>

definition CondExpLt_dbl :: "dbl \<Rightarrow> dbl \<Rightarrow> 'a \<Rightarrow> 'a \<Rightarrow> 'a" where
  "CondExpLt_dbl l r t f = (if dlt l r then t else f)"

definition CondExpGe_dbl :: "dbl \<Rightarrow> dbl \<Rightarrow> 'a \<Rightarrow> 'a \<Rightarrow> 'a" where
  "CondExpGe_dbl l r t f = (if dge l r then t else f)"

definition posfun_dbl :: "dbl \<Rightarrow> dbl \<Rightarrow> dbl \<Rightarrow> dbl \<times> dbl" where
  "posfun_dbl x eps pen =
     (let pen' = dadd pen
                   (CondExpLt_dbl x eps (dmul (fl (1 / 100)) (dmul (dsub x eps) (dsub x eps))) (Fin 0))
      in (CondExpGe_dbl x eps x (ddiv eps (dsub (Fin 2) (ddiv eps x))), pen'))"

text \<open>
  solveBaranovDD on doubles: the same statements in the same order, \<open>pow(Z,2)\<close> the rounded
  square. \<open>newZ = M; newZ += F\<close> is the rounded sum of \<open>M\<close> and \<open>F\<close>.
\<close>

record dbl_state =
  dZ :: dbl
  dF :: dbl
  dNewZ :: dbl

definition baranov_step_dbl :: "dbl \<Rightarrow> dbl \<Rightarrow> dbl \<Rightarrow> dbl \<Rightarrow> dbl_state \<Rightarrow> dbl_state" where
  "baranov_step_dbl Bstep C M B s =
     (let Z = dNewZ s;
          F = dF s;
          tmp = ddiv (dmul (dmul B (dsub (Fin 1) (dexp (dneg Z)))) F) Z;
          f = dsub C tmp;
          J = dmul (dneg B)
                (dadd (ddiv (dmul (dsub (Fin 1) (dexp (dneg Z))) M) (dmul Z Z))
                      (ddiv (dmul (dexp (dneg Z)) F) Z));
          F' = dsub F (ddiv (dmul Bstep f) J)
      in \<lparr>dZ = Z, dF = F', dNewZ = dadd M F'\<rparr>)"

fun baranov_loop_dbl :: "dbl \<Rightarrow> dbl \<Rightarrow> dbl \<Rightarrow> dbl \<Rightarrow> nat \<Rightarrow> dbl_state \<Rightarrow> dbl_state" where
  "baranov_loop_dbl Bstep C M B 0 s = s"
| "baranov_loop_dbl Bstep C M B (Suc k) s =
     baranov_loop_dbl Bstep C M B k (baranov_step_dbl Bstep C M B s)"

definition solveBaranovDD_dbl :: "int \<Rightarrow> dbl \<Rightarrow> dbl \<Rightarrow> dbl \<Rightarrow> dbl \<Rightarrow> dbl \<times> dbl" where
  "solveBaranovDD_dbl nIter Bstep C M B =
     (let F = ddiv C (dadd C B);
          s = baranov_loop_dbl Bstep C M B (nat nIter) \<lparr>dZ = dadd M F, dF = F, dNewZ = dadd M F\<rparr>
      in (dZ s, dF s))"

section \<open>Properties of the double arithmetic\<close>

text \<open>A number \<open>m / 2^n\<close> with \<open>|m| < 2^53\<close> is a double: rounding leaves it as it is.\<close>

lemma rne_of_int: "rne (of_int n) = n"
  by (simp add: rne_def)

lemma floor_log2:
  assumes "power_int 2 k \<le> x" and "x < power_int 2 (k + 1)"
  shows "\<lfloor>log 2 x\<rfloor> = k"
proof -
  have "0 < power_int (2::real) k" by simp
  then have x: "0 < x" using assms(1) by linarith
  have a: "2 powr real_of_int k = power_int 2 k" by (simp add: powr_real_of_int')
  have b: "2 powr real_of_int (k + 1) = power_int 2 (k + 1)" by (rule powr_real_of_int') simp_all
  have "2 powr real_of_int k \<le> x \<and> x < 2 powr real_of_int (k + 1)"
    unfolding a b using assms by simp
  moreover have "(1::real) < 2" by simp
  ultimately show ?thesis using floor_log_eq_powr_iff [OF x, of 2 k] by blast
qed

lemma ulp_exp_le:
  assumes m: "m \<noteq> 0" "\<bar>m\<bar> < 2 ^ 53" and e: "- 1074 \<le> e"
  shows "ulp_exp (of_int m * power_int 2 e) \<le> e"
proof -
  let ?x = "of_int m * power_int (2::real) e"
  have ax: "\<bar>?x\<bar> = of_int \<bar>m\<bar> * power_int 2 e" by (simp add: abs_mult)
  have pos: "0 < \<bar>?x\<bar>" using m(1) by simp
  have "real_of_int \<bar>m\<bar> < 2 ^ 53" using m(2) by (metis of_int_less_numeral_power_cancel_iff)
  then have "\<bar>?x\<bar> < 2 ^ 53 * power_int 2 e" unfolding ax by simp
  also have "\<dots> = power_int 2 (e + 53)" by (simp add: power_int_add)
  also have "\<dots> = 2 powr real_of_int (e + 53)" by (rule powr_real_of_int' [symmetric]) simp_all
  finally have "log 2 \<bar>?x\<bar> < real_of_int (e + 53)" using pos by (simp add: log_less_iff)
  then have "\<lfloor>log 2 \<bar>?x\<bar>\<rfloor> \<le> e + 52" by (simp add: floor_le_iff)
  then show ?thesis using e by (simp add: ulp_exp_def)
qed

lemma rnd_exact:
  assumes m: "m \<noteq> 0" "\<bar>m\<bar> < 2 ^ 53" and e: "- 1074 \<le> e"
  shows "rnd (of_int m * power_int 2 e) = of_int m * power_int 2 e"
proof -
  let ?x = "of_int m * power_int (2::real) e"
  let ?u = "ulp_exp ?x"
  have le: "?u \<le> e" using assms by (rule ulp_exp_le)
  have x0: "?x \<noteq> 0" using m(1) by simp
  have "power_int (2::real) e = power_int 2 (e - ?u) * power_int 2 ?u"
    by (simp add: power_int_add [symmetric])
  also have "power_int (2::real) (e - ?u) = 2 ^ nat (e - ?u)"
    using le by (simp add: power_int_def)
  finally have pe: "power_int (2::real) e = 2 ^ nat (e - ?u) * power_int 2 ?u" .
  have "?x / power_int 2 ?u = of_int m * 2 ^ nat (e - ?u)"
    by (subst pe) simp
  also have "\<dots> = of_int (m * 2 ^ nat (e - ?u))" by simp
  finally have q: "?x / power_int 2 ?u = of_int (m * 2 ^ nat (e - ?u))" .
  have "rnd ?x = of_int (rne (?x / power_int 2 ?u)) * power_int 2 ?u"
    using x0 by (simp only: rnd_def if_False)
  also have "\<dots> = of_int (m * 2 ^ nat (e - ?u)) * power_int 2 ?u"
    unfolding q rne_of_int ..
  also have "\<dots> = ?x" by (subst (2) pe) simp
  finally show ?thesis .
qed

lemma fl_exact:
  assumes m: "m \<noteq> 0" "\<bar>m\<bar> < 2 ^ 53" and n: "n \<le> 1074"
  shows "fl (of_int m / 2 ^ n) = Fin (of_int m / 2 ^ n)"
proof -
  let ?x = "of_int m / (2::real) ^ n"
  have x: "?x = of_int m * power_int 2 (- int n)"
    by (simp add: power_int_minus field_simps)
  have r: "rnd ?x = ?x" unfolding x using m n by (intro rnd_exact) simp_all
  have x0: "?x \<noteq> 0" using m(1) by simp
  have "real_of_int \<bar>m\<bar> < 2 ^ 53" using m(2) by (metis of_int_less_numeral_power_cancel_iff)
  moreover have "\<bar>?x\<bar> \<le> real_of_int \<bar>m\<bar>"
    by (simp add: abs_divide divide_le_eq_1 field_simps mult_le_cancel_left1)
  moreover have "(2::real) ^ 53 < 2 ^ 1024" by (rule power_strict_increasing) simp_all
  ultimately have "\<bar>?x\<bar> < 2 ^ 1024" by linarith
  then show ?thesis using x0 by (simp add: fl_def r Let_def)
qed

text \<open>Overflow, underflow and one inexact sum, as the examples below need them.\<close>

lemma fl_big: "fl (2 ^ 1030) = PInf"
proof -
  have "rnd (of_int 1 * power_int 2 1030) = of_int 1 * power_int 2 1030"
    by (rule rnd_exact) simp_all
  then have r: "rnd (2 ^ 1030) = 2 ^ 1030" by (simp add: power_int_def)
  have "(2::real) ^ 1024 \<le> 2 ^ 1030" by (rule power_increasing) simp_all
  then show ?thesis by (simp only: fl_def r Let_def) simp
qed

lemma fl_big_neg: "fl (- (2 ^ 1030)) = MInf"
proof -
  have "rnd (of_int (- 1) * power_int 2 1030) = of_int (- 1) * power_int 2 1030"
    by (rule rnd_exact) simp_all
  then have r: "rnd (- (2 ^ 1030)) = - (2 ^ 1030)" by (simp add: power_int_def)
  have "(2::real) ^ 1024 \<le> 2 ^ 1030" by (rule power_increasing) simp_all
  then show ?thesis by (simp only: fl_def r Let_def) simp
qed

lemma rne_small: "0 \<le> y \<Longrightarrow> y < 1 / 2 \<Longrightarrow> rne y = 0"
proof -
  assume a: "0 \<le> y" "y < 1 / 2"
  then have "\<lfloor>y\<rfloor> = 0" by (intro floor_unique) simp_all
  then show ?thesis using a by (simp add: rne_def Let_def)
qed

lemma fl_tiny:
  assumes "0 < x" and "x < 1 / 2 ^ 1075"
  shows "fl x = Fin 0"
proof -
  define c :: real where "c = 2 ^ 1074"
  have c0: "0 < c" by (simp add: c_def)
  have c2: "(1::real) / 2 ^ 1075 = 1 / (2 * c)" by (simp add: c_def)
  have pc: "power_int (2::real) (- 1074) = 1 / c" by (simp add: c_def power_int_minus field_simps)
  have "(1::real) / 2 ^ 1075 \<le> 1 / 2 ^ 1021"
    by (intro divide_left_mono power_increasing) simp_all
  also have "\<dots> = power_int 2 (- 1021)" by (simp add: power_int_minus field_simps)
  also have "\<dots> = 2 powr real_of_int (- 1021)" by (rule powr_real_of_int' [symmetric]) simp_all
  finally have "x < 2 powr real_of_int (- 1021)" using assms(2) by linarith
  then have "log 2 x < real_of_int (- 1021)" using assms(1) by (simp add: log_less_iff)
  then have "\<lfloor>log 2 \<bar>x\<bar>\<rfloor> \<le> - 1022" using assms(1) by (simp add: floor_le_iff)
  then have u: "ulp_exp x = - 1074" by (simp add: ulp_exp_def)
  have "x < 1 / (2 * c)" using assms(2) unfolding c2 .
  then have y1: "x * c < 1 / 2" using c0 by (simp add: field_simps)
  have y0: "0 \<le> x * c" using assms(1) c0 by simp
  have "rne (x * c) = 0" using y0 y1 by (rule rne_small)
  moreover have "x / power_int 2 (ulp_exp x) = x * c" unfolding u pc by simp
  ultimately have "rnd x = 0" by (simp only: rnd_def) simp
  then show ?thesis using assms(1) by (simp add: fl_def Let_def)
qed

lemma exp_underflow: "exp (- 2048 :: real) < 1 / 2 ^ 1075"
proof -
  have "(2::real) \<le> exp 1" using exp_ge_add_one_self [of "1::real"] by simp
  then have "(2::real) ^ 2048 \<le> exp 1 ^ 2048" by (intro power_mono) simp_all
  also have "\<dots> = exp (2048 :: real)" using exp_of_nat_mult [of 2048 "1::real"] by simp
  finally have a: "(2::real) ^ 2048 \<le> exp 2048" .
  have "(2::real) ^ 1075 < 2 ^ 2048" by (rule power_strict_increasing) simp_all
  then have b: "(2::real) ^ 1075 < exp 2048" using a by linarith
  have "exp (- 2048 :: real) = 1 / exp 2048" by (simp add: exp_minus field_simps)
  also have "\<dots> < 1 / 2 ^ 1075" using b by (intro divide_strict_left_mono) simp_all
  finally show ?thesis .
qed

lemma fl_round_2048: "fl (2048 + 1 / 2 ^ 50) = Fin 2048"
proof -
  let ?x = "(2048::real) + 1 / 2 ^ 50"
  have x: "\<bar>?x\<bar> = ?x" by simp
  have "\<lfloor>log 2 ?x\<rfloor> = 11" by (rule floor_log2) (simp_all add: power_int_def)
  then have u: "ulp_exp ?x = - 41" by (simp add: ulp_exp_def)
  have q: "?x / power_int 2 (- 41) = 4503599627370496 + 1 / 512"
    by (simp add: power_int_minus field_simps)
  have f: "\<lfloor>(4503599627370496::real) + 1 / 512\<rfloor> = 4503599627370496"
    by (intro floor_unique) simp_all
  have r: "rne (4503599627370496 + 1 / 512) = 4503599627370496"
    by (simp add: rne_def f Let_def)
  have "rnd ?x = of_int 4503599627370496 * power_int 2 (- 41)"
    by (simp only: rnd_def u q r) simp
  also have "\<dots> = 2048" by (simp add: power_int_minus)
  finally have "rnd ?x = 2048" .
  then show ?thesis by (simp add: fl_def Let_def)
qed

section \<open>Properties of posfun\<close>

lemma posfun_low:
  "x < eps \<Longrightarrow> x \<noteq> 0 \<Longrightarrow> 2 - eps / x \<noteq> 0 \<Longrightarrow>
     fst (posfun x eps pen) = Some (eps / (2 - eps / x))"
  by (simp add: posfun_def CondExpGe_def rdiv_def)

text \<open>
  C6. At \<open>x \<ge> eps\<close> posfun returns \<open>x\<close> and leaves \<open>pen\<close> as it was; at \<open>x < eps\<close> it adds
  exactly \<open>0.01 * (x - eps)^2\<close> to \<open>pen\<close>; nothing else happens to \<open>pen\<close>.
\<close>

theorem posfun_frame:
  "(x \<ge> eps \<longrightarrow> posfun x eps pen = (Some x, pen)) \<and>
   (x < eps \<longrightarrow> snd (posfun x eps pen) = pen + (1 / 100) * (x - eps) ^ 2)"
  by (simp add: posfun_def CondExpGe_def CondExpLt_def)

theorem posfun_frame_witness:
  "posfun 3 2 5 = (Some 3, 5) \<and> snd (posfun 1 2 5) = 5 + (1 / 100) * (1 - 2) ^ 2"
  using posfun_frame [of 2 3 5] posfun_frame [of 2 1 5] by simp

lemma quot_half: "0 < (e::real) \<Longrightarrow> 2 < d \<Longrightarrow> e / d < e / 2"
  by (simp add: field_simps)

lemma posfun_negative_arg:
  assumes e: "0 < eps" and x: "x < 0"
  shows "\<exists>y. fst (posfun x eps pen) = Some y \<and> 0 < y \<and> y < eps / 2"
proof -
  have "eps / x < 0" using e x by (rule divide_pos_neg)
  then have d: "2 < 2 - eps / x" by simp
  have "fst (posfun x eps pen) = Some (eps / (2 - eps / x))"
    using x e d by (intro posfun_low) auto
  moreover have "0 < eps / (2 - eps / x)" using e d by simp
  moreover have "eps / (2 - eps / x) < eps / 2" using e d by (rule quot_half)
  ultimately show ?thesis by blast
qed

lemma posfun_small_positive_arg:
  assumes e: "0 < eps" and x: "0 < x" and h: "x < eps / 2"
  shows "\<exists>y. fst (posfun x eps pen) = Some y \<and> y < 0"
proof -
  have "2 * x < eps" using h by simp
  then have "2 < eps / x" using x by (simp add: pos_less_divide_eq)
  then have d: "2 - eps / x < 0" by simp
  have "fst (posfun x eps pen) = Some (eps / (2 - eps / x))"
    using x h e d by (intro posfun_low) auto
  moreover have "eps / (2 - eps / x) < 0" using e d by (rule divide_pos_neg)
  ultimately show ?thesis by blast
qed

lemma posfun_upper_half:
  assumes e: "0 < eps" and h: "eps / 2 < x" and l: "x < eps"
  shows "\<exists>y. fst (posfun x eps pen) = Some y \<and> eps < y"
proof -
  have x: "0 < x" using e h by simp
  have "eps < 2 * x" using h by simp
  then have q2: "eps / x < 2" using x by (simp add: pos_divide_less_eq)
  have q1: "1 < eps / x" using x l by simp
  have d0: "0 < 2 - eps / x" using q2 by simp
  have d1: "2 - eps / x < 1" using q1 by simp
  have "fst (posfun x eps pen) = Some (eps / (2 - eps / x))"
    using x l d0 by (intro posfun_low) auto
  moreover have "eps < eps / (2 - eps / x)" using e d0 d1 by (simp add: pos_less_divide_eq)
  ultimately show ?thesis by blast
qed

text \<open>
  C1, as stated (every \<open>x < eps\<close>, \<open>x \<noteq> 0\<close> gives a result below \<open>eps\<close>), fails: at
  \<open>eps = 1\<close>, \<open>x = 3/4\<close> the quotient \<open>eps / (2 - eps/x)\<close> is \<open>3/2\<close>.
\<close>

theorem posfun_below_eps_counterexample:
  "(0::real) < 1 \<and> (3 / 4 :: real) < 1 \<and> (3 / 4 :: real) \<noteq> 0 \<and>
   fst (posfun (3 / 4) 1 0) = Some (3 / 2) \<and> \<not> (3 / 2 :: real) < 1"
  by (simp add: posfun_def CondExpGe_def rdiv_def)

text \<open>
  C1, amended. For \<open>eps > 0\<close> and \<open>x \<noteq> 0\<close> below half the threshold, posfun returns a value
  strictly less than \<open>eps\<close>. On the upper half, \<open>eps/2 < x < eps\<close>, the value returned is
  strictly greater than \<open>eps\<close>, and at \<open>x = eps/2\<close> the denominator is zero.
\<close>

theorem posfun_below_eps:
  assumes "0 < eps" and "x \<noteq> 0"
  shows "(x < eps / 2 \<longrightarrow> (\<exists>y. fst (posfun x eps pen) = Some y \<and> y < eps)) \<and>
         (eps / 2 < x \<and> x < eps \<longrightarrow> (\<exists>y. fst (posfun x eps pen) = Some y \<and> eps < y)) \<and>
         (x = eps / 2 \<longrightarrow> fst (posfun x eps pen) = None)"
proof (intro conjI impI)
  assume h: "x < eps / 2"
  show "\<exists>y. fst (posfun x eps pen) = Some y \<and> y < eps"
  proof (cases "x < 0")
    case True
    from posfun_negative_arg [OF assms(1) True, of pen] assms(1) show ?thesis
      by fastforce
  next
    case False
    with assms(2) have "0 < x" by simp
    from posfun_small_positive_arg [OF assms(1) this h, of pen] assms(1) show ?thesis
      by fastforce
  qed
next
  assume "eps / 2 < x \<and> x < eps"
  then show "\<exists>y. fst (posfun x eps pen) = Some y \<and> eps < y"
    using posfun_upper_half [OF assms(1)] by blast
next
  assume h: "x = eps / 2"
  have "2 - eps / x = 0" unfolding h using assms(1) by simp
  moreover have "\<not> eps \<le> x" unfolding h using assms(1) by simp
  ultimately show "fst (posfun x eps pen) = None"
    using assms(2) by (simp add: posfun_def CondExpGe_def rdiv_def)
qed

theorem posfun_below_eps_witness:
  "(0::real) < 4 \<and> (1::real) \<noteq> 0 \<and> (1::real) < 4 / 2 \<and>
   (\<exists>y. fst (posfun 1 4 0) = Some y \<and> y < 4) \<and>
   (3::real) \<noteq> 0 \<and> (4 / 2 :: real) < 3 \<and> (3::real) < 4 \<and>
   (\<exists>y. fst (posfun 3 4 0) = Some y \<and> 4 < y) \<and>
   fst (posfun 2 4 0) = None"
  using posfun_below_eps [where eps = 4 and x = 1 and pen = 0]
        posfun_below_eps [where eps = 4 and x = 3 and pen = 0]
        posfun_below_eps [where eps = 4 and x = 2 and pen = 0]
  by simp

lemma posfun_dbl_overflow:
  "fst (posfun_dbl (Fin (1 / 2 ^ 1030)) (Fin 1) pen) = NZero"
proof -
  have d: "ddiv (Fin 1) (Fin (1 / 2 ^ 1030)) = PInf"
    by (simp add: ddiv_def fl_big [simplified])
  have l: "\<not> dge (Fin (1 / 2 ^ 1030)) (Fin 1)"
    by (simp add: dge_def dlt_def)
  have s: "dsub (Fin 2) PInf = MInf" by (simp add: dsub_def dadd_def)
  have q: "ddiv (Fin 1) MInf = NZero" by (simp add: ddiv_def zero_of_def)
  show ?thesis
    by (simp only: posfun_dbl_def CondExpGe_dbl_def Let_def fst_conv l if_False d s q)
qed

lemma posfun_dbl_overflow_neg:
  "fst (posfun_dbl (Fin (- (1 / 2 ^ 1030))) (Fin 1) pen) = Fin 0"
proof -
  have d: "ddiv (Fin 1) (Fin (- (1 / 2 ^ 1030))) = MInf"
    by (simp add: ddiv_def fl_big_neg [simplified])
  have l: "\<not> dge (Fin (- (1 / 2 ^ 1030))) (Fin 1)"
    by (simp add: dge_def dlt_def)
  have s: "dsub (Fin 2) MInf = PInf" by (simp add: dsub_def dadd_def)
  have q: "ddiv (Fin 1) PInf = Fin 0" by (simp add: ddiv_def zero_of_def)
  show ?thesis
    by (simp only: posfun_dbl_def CondExpGe_dbl_def Let_def fst_conv l if_False d s q)
qed

text \<open>
  C10, as stated (for every \<open>eps > 0\<close> and \<open>0 < x < eps/2\<close> a strictly negative value, for every
  negative \<open>x\<close> a strictly positive one), fails in double precision: at \<open>eps = 1\<close>,
  \<open>x = 2^-1030\<close> the quotient \<open>eps/x\<close> overflows to \<open>+inf\<close>, \<open>2 - eps/x\<close> is \<open>-inf\<close> and posfun
  returns \<open>-0\<close>, which is not below zero; at \<open>x = -2^-1030\<close> it returns \<open>+0\<close>, which is not
  above zero.
\<close>

theorem posfun_negative_output_counterexample:
  "(0::real) < 1 \<and> (0::real) < 1 / 2 ^ 1030 \<and> (1 / 2 ^ 1030 :: real) < 1 / 2 \<and>
   fst (posfun_dbl (Fin (1 / 2 ^ 1030)) (Fin 1) (Fin 0)) = NZero \<and> \<not> dlt NZero (Fin 0) \<and>
   (- (1 / 2 ^ 1030) :: real) < 0 \<and>
   fst (posfun_dbl (Fin (- (1 / 2 ^ 1030))) (Fin 1) (Fin 0)) = Fin 0 \<and> \<not> dlt (Fin 0) (Fin 0)"
proof -
  have "(1 / 2 ^ 1030 :: real) \<le> 1 / 2 ^ 2"
    by (intro divide_left_mono power_increasing) simp_all
  then have "(1 / 2 ^ 1030 :: real) < 1 / 2" by simp
  moreover have "\<not> dlt NZero (Fin 0)" and "\<not> dlt (Fin 0) (Fin 0)"
    by (simp_all add: dlt_def)
  ultimately show ?thesis
    by (simp only: posfun_dbl_overflow posfun_dbl_overflow_neg) simp
qed

text \<open>
  C10, amended. Over exact real arithmetic (no rounding, no overflow of \<open>eps/x\<close>): for
  \<open>eps > 0\<close> and \<open>0 < x < eps/2\<close> posfun returns a strictly negative value (the denominator
  \<open>2 - eps/x\<close> is negative there), while for every negative \<open>x\<close> it returns a strictly
  positive one.
\<close>

theorem posfun_negative_output:
  assumes "0 < eps"
  shows "(0 < x \<and> x < eps / 2 \<longrightarrow>
            2 - eps / x < 0 \<and> (\<exists>y. fst (posfun x eps pen) = Some y \<and> y < 0)) \<and>
         (x < 0 \<longrightarrow> (\<exists>y. fst (posfun x eps pen) = Some y \<and> 0 < y))"
proof (intro conjI impI)
  assume h: "0 < x \<and> x < eps / 2"
  then have "2 * x < eps" by simp
  then have "2 < eps / x" using h by (simp add: pos_less_divide_eq)
  then show "2 - eps / x < 0" by simp
next
  assume h: "0 < x \<and> x < eps / 2"
  then show "\<exists>y. fst (posfun x eps pen) = Some y \<and> y < 0"
    using posfun_small_positive_arg [OF assms] by blast
next
  assume "x < 0"
  from posfun_negative_arg [OF assms this, of pen] show "\<exists>y. fst (posfun x eps pen) = Some y \<and> 0 < y"
    by blast
qed

theorem posfun_negative_output_witness:
  "(0::real) < 4 \<and> (0::real) < 1 \<and> (1::real) < 4 / 2 \<and>
   (\<exists>y. fst (posfun 1 4 0) = Some y \<and> y < 0) \<and>
   (- 1 :: real) < 0 \<and> (\<exists>y. fst (posfun (- 1) 4 0) = Some y \<and> 0 < y)"
  using posfun_negative_output [where eps = 4 and x = 1 and pen = 0]
        posfun_negative_output [where eps = 4 and x = "- 1" and pen = 0]
  by simp

section \<open>Properties of solveBaranovDD\<close>

text \<open>The loop, unrolled at its last pass.\<close>

lemma baranov_loop_snoc:
  "baranov_loop Bstep C M B (Suc n) s =
     (case baranov_loop Bstep C M B n s of None \<Rightarrow> None | Some s' \<Rightarrow> baranov_step Bstep C M B s')"
proof (induction n arbitrary: s)
  case 0
  then show ?case by (simp split: option.splits)
next
  case (Suc n)
  show ?case
  proof (cases "baranov_step Bstep C M B s")
    case None
    then show ?thesis by simp
  next
    case (Some s1)
    have a: "baranov_loop Bstep C M B (Suc n) s = baranov_loop Bstep C M B n s1"
      using Some by simp
    have b: "baranov_loop Bstep C M B (Suc (Suc n)) s = baranov_loop Bstep C M B (Suc n) s1"
      using Some by simp
    show ?thesis unfolding b a by (rule Suc.IH)
  qed
qed

lemma baranov_step_newZ:
  "baranov_step Bstep C M B s = Some s' \<Longrightarrow> stNewZ s' = M + stF s' \<and> stZ s' = stNewZ s"
  by (auto simp: baranov_step_def Let_def rdiv_def split: if_splits Option.bind_splits)

lemma baranov_loop_newZ:
  "baranov_loop Bstep C M B n s = Some s' \<Longrightarrow> stNewZ s = M + stF s \<Longrightarrow> stNewZ s' = M + stF s'"
proof (induction n arbitrary: s)
  case 0
  then show ?case by simp
next
  case (Suc n)
  then show ?case
    by (auto split: option.splits dest: baranov_step_newZ)
qed

lemma baranov_step_spec:
  assumes "stNewZ s = M + stF s" and "M + stF s \<noteq> 0" and "specJ M B (stF s) \<noteq> 0"
  shows "baranov_step Bstep C M B s =
           Some \<lparr>stZ = M + stF s,
                 stF = stF s - Bstep * (C - B * (1 - exp (- (M + stF s))) * stF s / (M + stF s)) / specJ M B (stF s),
                 stNewZ = M + (stF s - Bstep * (C - B * (1 - exp (- (M + stF s))) * stF s / (M + stF s)) / specJ M B (stF s))\<rparr>"
  using assms by (simp add: baranov_step_def Let_def rdiv_def specJ_def)

lemma baranov_loop_spec:
  assumes "C + B \<noteq> 0"
    and "\<forall>i<n. M + specF Bstep C M B i \<noteq> 0 \<and> specJ M B (specF Bstep C M B i) \<noteq> 0"
  shows "baranov_loop Bstep C M B n \<lparr>stZ = M + C / (C + B), stF = C / (C + B), stNewZ = M + C / (C + B)\<rparr> =
           Some \<lparr>stZ = M + specF Bstep C M B (n - 1), stF = specF Bstep C M B n,
                 stNewZ = M + specF Bstep C M B n\<rparr>"
  using assms(2)
proof (induction n)
  case 0
  then show ?case by simp
next
  case (Suc n)
  then have IH: "baranov_loop Bstep C M B n \<lparr>stZ = M + C / (C + B), stF = C / (C + B), stNewZ = M + C / (C + B)\<rparr> =
           Some \<lparr>stZ = M + specF Bstep C M B (n - 1), stF = specF Bstep C M B n,
                 stNewZ = M + specF Bstep C M B n\<rparr>" by simp
  from Suc.prems have nz: "M + specF Bstep C M B n \<noteq> 0" "specJ M B (specF Bstep C M B n) \<noteq> 0"
    by simp_all
  show ?case
    unfolding baranov_loop_snoc IH
    using nz by (simp add: baranov_step_spec Let_def)
qed

text \<open>
  C2. With \<open>C + B \<noteq> 0\<close> and every \<open>Z\<^sub>i\<close> and Jacobian of the clean recurrence nonzero,
  solveBaranovDD with \<open>nIter \<ge> 0\<close> passes returns, and its \<open>F\<close> is the iterate \<open>F\<^sub>n\<close> of the
  clean recurrence, \<open>n = nIter\<close>: the \<open>newZ\<close> temporary changes nothing in the sequence.
\<close>

theorem solveBaranovDD_refines_spec:
  assumes "0 \<le> nIter" and "C + B \<noteq> 0"
    and "\<forall>i<nat nIter. M + specF Bstep C M B i \<noteq> 0 \<and> specJ M B (specF Bstep C M B i) \<noteq> 0"
  shows "\<exists>Z. solveBaranovDD nIter Bstep C M B = Some (Z, specF Bstep C M B (nat nIter))"
  using assms(2) baranov_loop_spec [OF assms(2,3)]
  by (simp add: solveBaranovDD_def rdiv_def)

theorem solveBaranovDD_refines_spec_witness:
  "(0::int) \<le> 1 \<and> (1::real) + 1 \<noteq> 0 \<and> 0 + specF 1 1 0 1 0 \<noteq> 0 \<and>
   specJ 0 1 (specF 1 1 0 1 0) \<noteq> 0 \<and> specF 1 1 0 1 (nat 1) = 3 / 2 \<and>
   (\<exists>Z. solveBaranovDD 1 1 1 0 1 = Some (Z, specF 1 1 0 1 (nat 1)))"
  using solveBaranovDD_refines_spec [where nIter = 1 and C = 1 and B = 1 and M = 0 and Bstep = 1]
  by (simp add: specJ_def Let_def)

lemma solveBaranovDD_exact_Z_lags:
  assumes "1 \<le> nIter" and "solveBaranovDD nIter Bstep C M B = Some (Z, F)"
  shows "\<exists>Zp Fp. solveBaranovDD (nIter - 1) Bstep C M B = Some (Zp, Fp) \<and> Z = M + Fp \<and>
           (F \<noteq> Fp \<longrightarrow> Z \<noteq> M + F)"
proof -
  from assms(1) have n: "nat nIter = Suc (nat (nIter - 1))" by simp
  let ?s0 = "\<lparr>stZ = M + C / (C + B), stF = C / (C + B), stNewZ = M + C / (C + B)\<rparr>"
  from assms(2) obtain s where cb: "C + B \<noteq> 0"
    and s: "baranov_loop Bstep C M B (nat nIter) ?s0 = Some s" and zf: "Z = stZ s" "F = stF s"
    by (auto simp: solveBaranovDD_def rdiv_def split: if_splits Option.bind_splits)
  from s obtain sp where sp: "baranov_loop Bstep C M B (nat (nIter - 1)) ?s0 = Some sp"
    and st: "baranov_step Bstep C M B sp = Some s"
    unfolding n baranov_loop_snoc by (auto split: option.splits)
  from baranov_loop_newZ [OF sp] have "stNewZ sp = M + stF sp" by simp
  with baranov_step_newZ [OF st] have "stZ s = M + stF sp" by simp
  moreover have "solveBaranovDD (nIter - 1) Bstep C M B = Some (stZ sp, stF sp)"
    using cb sp by (simp add: solveBaranovDD_def rdiv_def)
  ultimately show ?thesis using zf by auto
qed

text \<open>The same in double precision: the last pass copies \<open>newZ\<close>, the rounded sum of \<open>M\<close> and the
  \<open>F\<close> of the pass before, into \<open>Z\<close>.\<close>

lemma baranov_loop_dbl_snoc:
  "baranov_loop_dbl Bstep C M B (Suc n) s =
     baranov_step_dbl Bstep C M B (baranov_loop_dbl Bstep C M B n s)"
  by (induction n arbitrary: s) simp_all

lemma baranov_step_dbl_fields:
  "dZ (baranov_step_dbl Bstep C M B s) = dNewZ s"
  "dNewZ (baranov_step_dbl Bstep C M B s) = dadd M (dF (baranov_step_dbl Bstep C M B s))"
  by (simp_all add: baranov_step_dbl_def Let_def)

lemma baranov_loop_dbl_newZ:
  "dNewZ s = dadd M (dF s) \<Longrightarrow>
     dNewZ (baranov_loop_dbl Bstep C M B n s) = dadd M (dF (baranov_loop_dbl Bstep C M B n s))"
  by (induction n) (simp_all add: baranov_loop_dbl_snoc baranov_step_dbl_fields del: baranov_loop_dbl.simps(2))

lemma solveBaranovDD_dbl_Z_lags:
  assumes "1 \<le> nIter"
  shows "fst (solveBaranovDD_dbl nIter Bstep C M B) =
           dadd M (snd (solveBaranovDD_dbl (nIter - 1) Bstep C M B))"
proof -
  from assms have n: "nat nIter = Suc (nat (nIter - 1))" by simp
  let ?F = "ddiv C (dadd C B)"
  let ?s0 = "\<lparr>dZ = dadd M ?F, dF = ?F, dNewZ = dadd M ?F\<rparr>"
  let ?sp = "baranov_loop_dbl Bstep C M B (nat (nIter - 1)) ?s0"
  have "dNewZ ?sp = dadd M (dF ?sp)" by (rule baranov_loop_dbl_newZ) simp
  then show ?thesis
    unfolding solveBaranovDD_dbl_def Let_def n baranov_loop_dbl_snoc
    by (simp add: baranov_step_dbl_fields)
qed

text \<open>
  One pass in double precision at \<open>Bstep = 2^-61\<close>, \<open>C = 1\<close>, \<open>M = 2047.5\<close>, \<open>B = 1\<close>: \<open>F\<close> starts
  at \<open>1/2\<close>, \<open>Z\<close> at \<open>2048\<close>, \<open>exp(-2048)\<close> underflows to zero, every product and quotient is
  exact, and the update moves \<open>F\<close> to \<open>1/2 + 2^-50\<close>.
\<close>

lemma baranov_dbl_init:
  "ddiv (Fin 1) (dadd (Fin 1) (Fin 1)) = Fin (1 / 2)"
  "dadd (Fin (4095 / 2)) (Fin (1 / 2)) = Fin 2048"
proof -
  have a: "dadd (Fin 1) (Fin 1) = Fin 2"
    using fl_exact [of 2 0] by (simp add: dadd_def)
  show "ddiv (Fin 1) (dadd (Fin 1) (Fin 1)) = Fin (1 / 2)"
    unfolding a using fl_exact [of 1 1] by (simp add: ddiv_def)
  show "dadd (Fin (4095 / 2)) (Fin (1 / 2)) = Fin 2048"
    using fl_exact [of 2048 0] by (simp add: dadd_def)
qed

lemma baranov_dbl_pass:
  "baranov_step_dbl (Fin (1 / 2 ^ 61)) (Fin 1) (Fin (4095 / 2)) (Fin 1)
      \<lparr>dZ = Fin 2048, dF = Fin (1 / 2), dNewZ = Fin 2048\<rparr> =
    \<lparr>dZ = Fin 2048, dF = Fin (1 / 2 + 1 / 2 ^ 50), dNewZ = Fin 2048\<rparr>"
proof -
  have e: "dexp (dneg (Fin 2048)) = Fin 0"
    using fl_tiny [OF _ exp_underflow] by simp
  have o: "dsub (Fin 1) (Fin 0) = Fin 1"
    using fl_exact [of 1 0] by (simp add: dsub_def dadd_def)
  have b4: "dmul (Fin 1) (Fin 1) = Fin 1"
    using fl_exact [of 1 0] by (simp add: dmul_def)
  have b5: "dmul (Fin 1) (Fin (1 / 2)) = Fin (1 / 2)"
    using fl_exact [of 1 1] by (simp add: dmul_def)
  have b6: "ddiv (Fin (1 / 2)) (Fin 2048) = Fin (1 / 4096)"
    using fl_exact [of 1 12] by (simp add: ddiv_def)
  have b7: "dsub (Fin 1) (Fin (1 / 4096)) = Fin (4095 / 4096)"
    using fl_exact [of 4095 12] by (simp add: dsub_def dadd_def)
  have b8: "dmul (Fin 1) (Fin (4095 / 2)) = Fin (4095 / 2)"
    using fl_exact [of 4095 1] by (simp add: dmul_def)
  have b9: "dmul (Fin 2048) (Fin 2048) = Fin 4194304"
    using fl_exact [of 4194304 0] by (simp add: dmul_def)
  have b10: "ddiv (Fin (4095 / 2)) (Fin 4194304) = Fin (4095 / 8388608)"
    using fl_exact [of 4095 23] by (simp add: ddiv_def)
  have b11: "dmul (Fin 0) (Fin (1 / 2)) = Fin 0"
    by (simp add: dmul_def zero_of_def)
  have b12: "ddiv (Fin 0) (Fin 2048) = Fin 0"
    by (simp add: ddiv_def zero_of_def)
  have b13: "dadd (Fin (4095 / 8388608)) (Fin 0) = Fin (4095 / 8388608)"
    using fl_exact [of 4095 23] by (simp add: dadd_def)
  have b14: "dneg (Fin 1) = Fin (- 1)" by simp
  have b15: "dmul (Fin (- 1)) (Fin (4095 / 8388608)) = Fin (- (4095 / 8388608))"
    using fl_exact [of "- 4095" 23] by (simp add: dmul_def)
  have b16: "dmul (Fin (1 / 2 ^ 61)) (Fin (4095 / 4096)) = Fin (4095 / 2 ^ 73)"
    using fl_exact [of 4095 73] by (simp add: dmul_def)
  have b17: "ddiv (Fin (4095 / 2 ^ 73)) (Fin (- (4095 / 8388608))) = Fin (- (1 / 2 ^ 50))"
    using fl_exact [of "- 1" 50] by (simp add: ddiv_def)
  have b18: "dsub (Fin (1 / 2)) (Fin (- (1 / 2 ^ 50))) = Fin (1 / 2 + 1 / 2 ^ 50)"
    using fl_exact [of "2 ^ 49 + 1" 50] by (simp add: dsub_def dadd_def)
  have b19: "dadd (Fin (4095 / 2)) (Fin (1 / 2 + 1 / 2 ^ 50)) = Fin 2048"
    using fl_round_2048 by (simp add: dadd_def)
  show ?thesis
    by (simp only: baranov_step_dbl_def Let_def dbl_state.simps
          e o b4 b5 b6 b7 b8 b9 b10 b11 b12 b13 b14 b15 b16 b17 b18 b19)
qed

lemma baranov_dbl_runs:
  "solveBaranovDD_dbl 0 (Fin (1 / 2 ^ 61)) (Fin 1) (Fin (4095 / 2)) (Fin 1) = (Fin 2048, Fin (1 / 2))"
  "solveBaranovDD_dbl 1 (Fin (1 / 2 ^ 61)) (Fin 1) (Fin (4095 / 2)) (Fin 1) =
     (Fin 2048, Fin (1 / 2 + 1 / 2 ^ 50))"
  "dadd (Fin (4095 / 2)) (Fin (1 / 2 + 1 / 2 ^ 50)) = Fin 2048"
proof -
  have n0: "nat 0 = 0" and n1: "nat 1 = Suc 0" by simp_all
  show "solveBaranovDD_dbl 0 (Fin (1 / 2 ^ 61)) (Fin 1) (Fin (4095 / 2)) (Fin 1) = (Fin 2048, Fin (1 / 2))"
    by (simp only: solveBaranovDD_dbl_def Let_def baranov_dbl_init n0 baranov_loop_dbl.simps
          dbl_state.simps)
  show "solveBaranovDD_dbl 1 (Fin (1 / 2 ^ 61)) (Fin 1) (Fin (4095 / 2)) (Fin 1) =
     (Fin 2048, Fin (1 / 2 + 1 / 2 ^ 50))"
    by (simp only: solveBaranovDD_dbl_def Let_def baranov_dbl_init n1 baranov_loop_dbl.simps
          baranov_dbl_pass dbl_state.simps)
  show "dadd (Fin (4095 / 2)) (Fin (1 / 2 + 1 / 2 ^ 50)) = Fin 2048"
    using fl_round_2048 by (simp add: dadd_def)
qed

text \<open>
  C9, as stated (\<open>Z \<noteq> M + F\<close> whenever the last update changes \<open>F\<close>), fails in double
  precision: at \<open>nIter = 1\<close>, \<open>Bstep = 2^-61\<close>, \<open>C = 1\<close>, \<open>M = 2047.5\<close>, \<open>B = 1\<close> the update changes
  \<open>F\<close> from \<open>1/2\<close> to \<open>1/2 + 2^-50\<close>, \<open>Z\<close> is \<open>2048\<close>, and the sum \<open>M + F\<close> rounds to \<open>2048\<close> too.
\<close>

theorem solveBaranovDD_Z_lags_counterexample:
  "(1::int) \<le> 1 \<and>
   solveBaranovDD_dbl 1 (Fin (1 / 2 ^ 61)) (Fin 1) (Fin (4095 / 2)) (Fin 1) =
     (Fin 2048, Fin (1 / 2 + 1 / 2 ^ 50)) \<and>
   solveBaranovDD_dbl 0 (Fin (1 / 2 ^ 61)) (Fin 1) (Fin (4095 / 2)) (Fin 1) = (Fin 2048, Fin (1 / 2)) \<and>
   Fin (1 / 2 + 1 / 2 ^ 50) \<noteq> Fin (1 / 2) \<and>
   dadd (Fin (4095 / 2)) (Fin (1 / 2 + 1 / 2 ^ 50)) = Fin 2048"
  by (simp only: baranov_dbl_runs) simp

text \<open>
  C9, amended. For \<open>nIter \<ge> 1\<close> the output \<open>Z\<close> is \<open>M\<close> plus the second-to-last \<open>F\<close> iterate, the
  value \<open>F\<close> had before the last Newton update (in double precision: the rounded sum of the
  two), not a sum formed from the returned \<open>F\<close>. Over exact real arithmetic, when
  solveBaranovDD returns \<open>(Z, F)\<close> and the last update changed \<open>F\<close>, \<open>Z \<noteq> M + F\<close>.
\<close>

theorem solveBaranovDD_Z_lags:
  assumes "1 \<le> nIter"
  shows "fst (solveBaranovDD_dbl nIter dBstep dC dM dB) =
           dadd dM (snd (solveBaranovDD_dbl (nIter - 1) dBstep dC dM dB)) \<and>
         (solveBaranovDD nIter Bstep C M B = Some (Z, F) \<longrightarrow>
           (\<exists>Zp Fp. solveBaranovDD (nIter - 1) Bstep C M B = Some (Zp, Fp) \<and> Z = M + Fp \<and>
              (F \<noteq> Fp \<longrightarrow> Z \<noteq> M + F)))"
  using solveBaranovDD_dbl_Z_lags [OF assms] solveBaranovDD_exact_Z_lags [OF assms]
  by blast

theorem solveBaranovDD_Z_lags_witness:
  "(1::int) \<le> 1 \<and>
   fst (solveBaranovDD_dbl 1 (Fin (1 / 2 ^ 61)) (Fin 1) (Fin (4095 / 2)) (Fin 1)) =
     dadd (Fin (4095 / 2)) (snd (solveBaranovDD_dbl (1 - 1) (Fin (1 / 2 ^ 61)) (Fin 1) (Fin (4095 / 2)) (Fin 1))) \<and>
   solveBaranovDD 1 1 1 0 1 = Some (1 / 2, 3 / 2) \<and>
   (\<exists>Zp Fp. solveBaranovDD (1 - 1) 1 1 0 1 = Some (Zp, Fp) \<and> (1 / 2 :: real) = 0 + Fp \<and>
      (3 / 2 :: real) \<noteq> Fp \<and> (1 / 2 :: real) \<noteq> 0 + 3 / 2)"
proof -
  have r: "solveBaranovDD 1 1 1 0 1 = Some (1 / 2, 3 / 2)"
    by (simp add: solveBaranovDD_def rdiv_def baranov_step_def Let_def field_simps)
  have h: "(1::int) \<le> 1" by simp
  note t = solveBaranovDD_Z_lags [OF h, where dBstep = "Fin (1 / 2 ^ 61)" and dC = "Fin 1"
      and dM = "Fin (4095 / 2)" and dB = "Fin 1" and Bstep = 1 and C = 1 and M = 0 and B = 1
      and Z = "1 / 2" and F = "3 / 2"]
  from t r obtain Zp Fp where "solveBaranovDD (1 - 1) 1 1 0 1 = Some (Zp, Fp)"
    and "(1 / 2 :: real) = 0 + Fp"
    by auto
  then have "solveBaranovDD (1 - 1) 1 1 0 1 = Some (Zp, Fp) \<and> (1 / 2 :: real) = 0 + Fp \<and>
      (3 / 2 :: real) \<noteq> Fp \<and> (1 / 2 :: real) \<noteq> 0 + 3 / 2" by simp
  then show ?thesis using r t by blast
qed

section \<open>Properties of CRmort\<close>

text \<open>
  The loop started at any age \<open>a\<close> of the range: it overwrites \<open>ageObs\<close> from the relative
  index of \<open>a\<close> with the entries that reach \<open>minObs\<close>, up to the first that does not.
\<close>

declare CRmort_loop.simps [simp del]

lemma CRmort_loop_prefix:
  assumes "0 \<le> a" and "a \<le> Aplus" and "Aplus \<le> int (length ageComp)" and "kage - 1 \<le> a"
    and "length ageObs = nat (Aplus - kage + 1)"
  shows "CRmort_loop ageComp kage Aplus minObs a (ageObs, abar) =
     (let tw = takeWhile (\<lambda>v. real_of_int minObs \<le> v) (take (nat (Aplus - a)) (drop (nat a) ageComp));
          i = nat (a - kage + 1)
      in Some (take i ageObs @ tw @ drop (i + length tw) ageObs,
               abar + (\<Sum>j<length tw. real (i + j) * tw ! j)))"
  using assms
proof (induction "nat (Aplus - a)" arbitrary: a ageObs abar)
  case 0
  then have "a = Aplus" by simp
  then show ?case by (simp add: CRmort_loop.simps)
next
  case (Suc n)
  let ?i = "nat (a - kage + 1)"
  let ?v = "ageComp ! nat a"
  let ?P = "\<lambda>v. real_of_int minObs \<le> v"
  from Suc.hyps(2) have lt: "a < Aplus" by simp
  with Suc.prems have inr: "nat a < length ageComp" by simp
  from lt Suc.prems have il: "?i < length ageObs" by simp
  have n1: "nat (Aplus - a) = Suc (nat (Aplus - (a + 1)))" using lt by simp
  have n2: "nat (a + 1) = Suc (nat a)" using Suc.prems(1) by simp
  have rest: "take (nat (Aplus - a)) (drop (nat a) ageComp) =
                ?v # take (nat (Aplus - (a + 1))) (drop (nat (a + 1)) ageComp)"
    unfolding n1 n2 using inr by (simp add: Cons_nth_drop_Suc [symmetric])
  have c1: "\<not> (a < 0 \<or> int (length ageComp) \<le> a)"
    using Suc.prems(1,3) lt by linarith
  have c2: "\<not> (a - kage + 1 < 0 \<or> int (length ageObs) \<le> a - kage + 1)"
    using Suc.prems(2,4,5) lt by linarith
  show ?case
  proof (cases "?P ?v")
    case False
    have "CRmort_loop ageComp kage Aplus minObs a (ageObs, abar) = Some (ageObs, abar)"
      by (subst CRmort_loop.simps) (simp only: lt c1 False if_True if_False)
    then show ?thesis using False by (simp add: rest)
  next
    case True
    let ?tw' = "takeWhile ?P (take (nat (Aplus - (a + 1))) (drop (nat (a + 1)) ageComp))"
    have step: "CRmort_loop ageComp kage Aplus minObs a (ageObs, abar) =
            CRmort_loop ageComp kage Aplus minObs (a + 1)
              (ageObs[?i := ?v], abar + real_of_int (a - kage + 1) * ?v)"
      by (subst CRmort_loop.simps) (simp only: lt c1 c2 True if_True if_False)
    have m: "n = nat (Aplus - (a + 1))" using Suc.hyps(2) by simp
    have i': "nat (a + 1 - kage + 1) = Suc ?i" using Suc.prems(4) by simp
    have IH: "CRmort_loop ageComp kage Aplus minObs (a + 1)
              (ageObs[?i := ?v], abar + real_of_int (a - kage + 1) * ?v) =
            Some (take (Suc ?i) (ageObs[?i := ?v]) @ ?tw' @ drop (Suc ?i + length ?tw') (ageObs[?i := ?v]),
                  abar + real_of_int (a - kage + 1) * ?v + (\<Sum>j<length ?tw'. real (Suc ?i + j) * ?tw' ! j))"
    proof -
      have p1: "0 \<le> a + 1" "a + 1 \<le> Aplus" "kage - 1 \<le> a + 1"
        using Suc.prems(1,4) lt by simp_all
      have p2: "length (ageObs[?i := ?v]) = nat (Aplus - kage + 1)"
        using Suc.prems(5) by simp
      show ?thesis
        using Suc.hyps(1) [OF m p1(1,2) Suc.prems(3) p1(3) p2]
        unfolding Let_def i' .
    qed
    have t: "take (Suc ?i) (ageObs[?i := ?v]) = take ?i ageObs @ [?v]"
      using il by (simp add: take_Suc_conv_app_nth)
    have d: "drop (Suc ?i + length ?tw') (ageObs[?i := ?v]) = drop (Suc ?i + length ?tw') ageObs"
      by simp
    have ri: "real_of_int (a - kage + 1) = real ?i" using Suc.prems(4) by simp
    have tw: "takeWhile ?P (take (nat (Aplus - a)) (drop (nat a) ageComp)) = ?v # ?tw'"
      using True by (simp add: rest)
    have sm: "(\<Sum>j<length (?v # ?tw'). real (?i + j) * (?v # ?tw') ! j) =
              real ?i * ?v + (\<Sum>j<length ?tw'. real (Suc ?i + j) * ?tw' ! j)"
      by (simp only: length_Cons sum.lessThan_Suc_shift) simp
    show ?thesis
      unfolding Let_def tw sm step IH by (simp only: t d ri) simp
  qed
qed


lemma CRmort_loop_initial:
  assumes "1 \<le> kage" and "kage \<le> Aplus" and "Aplus \<le> int (length ageComp)"
  shows "CRmort_loop ageComp kage Aplus minObs (kage - 1) (replicate (nat (Aplus - kage + 1)) 0, 0) =
     (let tw = takeWhile (\<lambda>v. real_of_int minObs \<le> v) (take (nat (Aplus - kage + 1)) (drop (nat (kage - 1)) ageComp))
      in Some (tw @ replicate (nat (Aplus - kage + 1) - length tw) 0,
               (\<Sum>j<length tw. real j * tw ! j)))"
proof -
  have p: "0 \<le> kage - 1" "kage - 1 \<le> Aplus" "kage - 1 \<le> kage - 1"
    "length (replicate (nat (Aplus - kage + 1)) (0::real)) = nat (Aplus - kage + 1)"
    using assms by simp_all
  have e: "Aplus - (kage - 1) = Aplus - kage + 1" by simp
  show ?thesis
    using CRmort_loop_prefix [OF p(1,2) assms(3) p(3,4), of minObs 0]
    by (simp add: Let_def e)
qed

lemma CRmort_loop_recorded:
  assumes "1 \<le> kage" and "kage \<le> Aplus" and "Aplus \<le> int (length ageComp)"
  shows "CRmort_loop ageComp kage Aplus minObs (kage - 1) (replicate (nat (Aplus - kage + 1)) 0, 0) =
      Some (recordedAges ageComp kage Aplus minObs @
              replicate (nat (Aplus - kage + 1) - length (recordedAges ageComp kage Aplus minObs)) 0,
            (\<Sum>j<length (recordedAges ageComp kage Aplus minObs).
                real j * recordedAges ageComp kage Aplus minObs ! j))"
  using CRmort_loop_initial [OF assms, of minObs]
  by (simp add: Let_def recordedAges_def)

lemma recordedAges_props:
  assumes "1 \<le> kage" and "kage \<le> Aplus" and "Aplus \<le> int (length ageComp)"
  shows "length (recordedAges ageComp kage Aplus minObs) \<le> nat (Aplus - kage + 1)"
    and "j < length (recordedAges ageComp kage Aplus minObs) \<Longrightarrow>
           recordedAges ageComp kage Aplus minObs ! j = ageComp ! (nat (kage - 1) + j) \<and>
           real_of_int minObs \<le> ageComp ! (nat (kage - 1) + j)"
    and "length (recordedAges ageComp kage Aplus minObs) < nat (Aplus - kage + 1) \<Longrightarrow>
           ageComp ! (nat (kage - 1) + length (recordedAges ageComp kage Aplus minObs)) < real_of_int minObs"
proof -
  let ?xs = "take (nat (Aplus - kage + 1)) (drop (nat (kage - 1)) ageComp)"
  let ?P = "\<lambda>v. real_of_int minObs \<le> v"
  have len: "length ?xs = nat (Aplus - kage + 1)" using assms by simp
  have nth: "i < nat (Aplus - kage + 1) \<Longrightarrow> ?xs ! i = ageComp ! (nat (kage - 1) + i)" for i
    using assms by simp
  have r: "recordedAges ageComp kage Aplus minObs = takeWhile ?P ?xs"
    by (simp add: recordedAges_def)
  show le: "length (recordedAges ageComp kage Aplus minObs) \<le> nat (Aplus - kage + 1)"
    unfolding r using length_takeWhile_le [of ?P ?xs] len by simp
  {
    assume j: "j < length (recordedAges ageComp kage Aplus minObs)"
    then have jn: "j < nat (Aplus - kage + 1)" using le by simp
    have a: "takeWhile ?P ?xs ! j = ?xs ! j" using j unfolding r by (rule takeWhile_nth)
    have "takeWhile ?P ?xs ! j \<in> set (takeWhile ?P ?xs)" using j unfolding r by (rule nth_mem)
    then have "?P (takeWhile ?P ?xs ! j)" by (auto dest: set_takeWhileD)
    then show "recordedAges ageComp kage Aplus minObs ! j = ageComp ! (nat (kage - 1) + j) \<and>
           real_of_int minObs \<le> ageComp ! (nat (kage - 1) + j)"
      unfolding r a nth [OF jn] by simp
  }
  {
    assume k: "length (recordedAges ageComp kage Aplus minObs) < nat (Aplus - kage + 1)"
    then have "length (takeWhile ?P ?xs) < length ?xs" unfolding r len .
    then have "\<not> ?P (?xs ! length (takeWhile ?P ?xs))" by (rule nth_length_takeWhile)
    then show "ageComp ! (nat (kage - 1) + length (recordedAges ageComp kage Aplus minObs)) < real_of_int minObs"
      using nth [OF k] unfolding r by simp
  }
qed

text \<open>
  C4. With \<open>1 \<le> kage \<le> Aplus \<le> length ageComp\<close> the loop of CRmort returns, and with \<open>k\<close>
  the length of the longest prefix of the ages \<open>kage-1 .. Aplus-1\<close> whose entries all reach
  \<open>minObs\<close>: every age \<open>a = kage-1+j\<close>, \<open>j < k\<close>, is stored at the relative index \<open>j\<close> and
  adds \<open>j * ageComp(a)\<close> to \<open>abar\<close>; the age at \<open>j = k\<close>, if there is one, is below \<open>minObs\<close>;
  and no index from \<open>k\<close> on is written, whatever the later entries are.
\<close>

theorem CRmort_loop_maximal_prefix:
  fixes ageComp :: "real list" and kage Aplus minObs :: int
  assumes "1 \<le> kage" and "kage \<le> Aplus" and "Aplus \<le> int (length ageComp)"
  defines "n \<equiv> nat (Aplus - kage + 1)"
    and "rec \<equiv> recordedAges ageComp kage Aplus minObs"
  defines "k \<equiv> length rec"
  defines "ageObs \<equiv> rec @ replicate (n - k) 0"
  shows "CRmort_loop ageComp kage Aplus minObs (kage - 1) (replicate n 0, 0) =
           Some (ageObs, \<Sum>j<k. real j * ageComp ! (nat (kage - 1) + j)) \<and>
         length ageObs = n \<and> k \<le> n \<and>
         (\<forall>j<k. real_of_int minObs \<le> ageComp ! (nat (kage - 1) + j) \<and>
                 ageObs ! j = ageComp ! (nat (kage - 1) + j)) \<and>
         (k < n \<longrightarrow> ageComp ! (nat (kage - 1) + k) < real_of_int minObs) \<and>
         (\<forall>j. k \<le> j \<and> j < n \<longrightarrow> ageObs ! j = 0)"
proof -
  note props = recordedAges_props [OF assms(1-3), where minObs = minObs, folded rec_def k_def n_def]
  have kn: "k \<le> n" by (rule props(1))
  have sm: "(\<Sum>j<k. real j * rec ! j) = (\<Sum>j<k. real j * ageComp ! (nat (kage - 1) + j))"
    by (rule sum.cong) (use props(2) in auto)
  have "CRmort_loop ageComp kage Aplus minObs (kage - 1) (replicate n 0, 0) =
           Some (ageObs, \<Sum>j<k. real j * rec ! j)"
    using CRmort_loop_recorded [OF assms(1-3), of minObs]
    unfolding n_def rec_def k_def ageObs_def .
  then have 1: "CRmort_loop ageComp kage Aplus minObs (kage - 1) (replicate n 0, 0) =
           Some (ageObs, \<Sum>j<k. real j * ageComp ! (nat (kage - 1) + j))"
    unfolding sm .
  have 2: "length ageObs = n" using kn by (simp add: ageObs_def k_def)
  have 3: "\<forall>j<k. real_of_int minObs \<le> ageComp ! (nat (kage - 1) + j) \<and>
                 ageObs ! j = ageComp ! (nat (kage - 1) + j)"
    using props(2) by (simp add: ageObs_def k_def nth_append)
  have 4: "k < n \<longrightarrow> ageComp ! (nat (kage - 1) + k) < real_of_int minObs"
    using props(3) by simp
  have 5: "\<forall>j. k \<le> j \<and> j < n \<longrightarrow> ageObs ! j = 0"
    by (auto simp: ageObs_def k_def nth_append)
  from 1 2 kn 3 4 5 show ?thesis by blast
qed

theorem CRmort_loop_maximal_prefix_witness:
  "(1::int) \<le> 1 \<and> (1::int) \<le> 5 \<and> 5 \<le> int (length [5, 10, 3, 0, 7 :: real]) \<and>
   CRmort_loop [5, 10, 3, 0, 7] 1 5 1 (1 - 1) (replicate (nat (5 - 1 + 1)) 0, 0) = Some ([5, 10, 3, 0, 0], 16)"
  using CRmort_loop_maximal_prefix [where ageComp = "[5, 10, 3, 0, 7]" and kage = 1 and Aplus = 5 and minObs = 1]
  by (simp add: recordedAges_def eval_nat_numeral)





section \<open>Properties of addCompNoise\<close>

lemma those_map_Some:
  "(\<And>x. x \<in> set xs \<Longrightarrow> f x = Some (g x)) \<Longrightarrow> those (map f xs) = Some (map g xs)"
  by (induction xs) simp_all

lemma sum_list_pos_real:
  "xs \<noteq> [] \<Longrightarrow> (\<And>x. x \<in> set xs \<Longrightarrow> 0 < x) \<Longrightarrow> 0 < sum_list (xs :: real list)"
proof (induction xs)
  case Nil
  then show ?case by simp
next
  case (Cons a xs)
  show ?case
  proof (cases "xs = []")
    case True
    then show ?thesis using Cons.prems(2) by simp
  next
    case False
    then have "0 < sum_list xs" using Cons by simp
    moreover have "0 < a" using Cons.prems(2) by simp
    ultimately show ?thesis by simp
  qed
qed

lemma sum_list_map_divide:
  "sum_list (map (\<lambda>v. v / c) xs) = sum_list xs / (c :: real)"
  by (induction xs) (simp_all add: add_divide_distrib)

lemma addCompNoise_value:
  assumes pos: "\<And>v. v \<in> set inputComp \<Longrightarrow> 0 < v" and len: "length noise = length inputComp"
    and ne: "inputComp \<noteq> []"
  shows "addCompNoise inputComp noise =
           Some (map (\<lambda>v. v / sum_list (map exp (map2 (+) (map ln inputComp) noise)))
                   (map exp (map2 (+) (map ln inputComp) noise)))"
proof -
  let ?E = "map exp (map2 (+) (map ln inputComp) noise)"
  have l: "those (map rlog inputComp) = Some (map ln inputComp)"
    by (rule those_map_Some) (simp add: rlog_def pos)
  have "?E \<noteq> []" using ne len by (cases inputComp; cases noise) simp_all
  moreover have "\<And>x. x \<in> set ?E \<Longrightarrow> 0 < x" by auto
  ultimately have T: "0 < sum_list ?E" by (rule sum_list_pos_real)
  have d: "those (map (\<lambda>v. rdiv v (sum_list ?E)) ?E) = Some (map (\<lambda>v. v / sum_list ?E) ?E)"
    by (rule those_map_Some) (use T in \<open>simp add: rdiv_def\<close>)
  show ?thesis
    unfolding addCompNoise_def l using len d by (simp add: Let_def)
qed

text \<open>
  C7, as stated (every vector of positive entries), fails at the vector of length 0: all its
  entries are positive, the result is the empty vector, and its entries sum to 0.
\<close>

theorem addCompNoise_sum_counterexample:
  "list_all (\<lambda>v. 0 < v) ([] :: real list) \<and> length ([] :: real list) = length ([] :: real list) \<and>
   addCompNoise [] [] = Some [] \<and> sum_list ([] :: real list) \<noteq> 1"
  by (simp add: addCompNoise_def)

text \<open>
  C7, amended. For every non-empty \<open>inputComp\<close> with all entries strictly positive and every
  \<open>noise\<close> of the same length, addCompNoise returns a vector of the same length, with all
  entries strictly positive, whose entries sum to exactly 1.
\<close>

theorem addCompNoise_sum:
  assumes "inputComp \<noteq> []" and "\<forall>v\<in>set inputComp. 0 < v" and "length noise = length inputComp"
  shows "\<exists>out. addCompNoise inputComp noise = Some out \<and> length out = length inputComp \<and>
           (\<forall>v\<in>set out. 0 < v) \<and> sum_list out = 1"
proof -
  let ?E = "map exp (map2 (+) (map ln inputComp) noise)"
  let ?out = "map (\<lambda>v. v / sum_list ?E) ?E"
  have v: "addCompNoise inputComp noise = Some ?out"
    using assms by (intro addCompNoise_value) auto
  have "?E \<noteq> []" using assms(1,3) by (cases inputComp; cases noise) simp_all
  moreover have "\<And>x. x \<in> set ?E \<Longrightarrow> 0 < x" by auto
  ultimately have T: "0 < sum_list ?E" by (rule sum_list_pos_real)
  have 1: "length ?out = length inputComp" using assms(3) by simp
  have 2: "\<forall>v\<in>set ?out. 0 < v" using T by auto
  have "sum_list ?out = sum_list ?E / sum_list ?E" by (rule sum_list_map_divide)
  then have 3: "sum_list ?out = 1" using T by simp
  from v 1 2 3 show ?thesis by blast
qed

theorem addCompNoise_sum_witness:
  "[1 / 4, 3 / 4 :: real] \<noteq> [] \<and> (0::real) < 1 / 4 \<and> (0::real) < 3 / 4 \<and>
   length [0, 0 :: real] = length [1 / 4, 3 / 4 :: real] \<and>
   (\<exists>out. addCompNoise [1 / 4, 3 / 4] [0, 0] = Some out \<and> length out = length [1 / 4, 3 / 4 :: real] \<and>
           (\<forall>v\<in>set out. 0 < v) \<and> sum_list out = 1)"
  using addCompNoise_sum [where inputComp = "[1 / 4, 3 / 4]" and noise = "[0, 0]"]
  by simp

section \<open>Properties of negLogLogisticNormal\<close>

declare nld_loop.simps [simp del]

lemma prod_list_pos_real:
  "(\<And>x. x \<in> set xs \<Longrightarrow> 0 < x) \<Longrightarrow> 0 < prod_list (xs :: real list)"
  by (induction xs) simp_all

lemma ytilde_pos:
  assumes "y \<noteq> []" and "\<And>v. v \<in> set y \<Longrightarrow> 0 < v"
  shows "\<exists>yt. ytilde y = Some yt \<and> ptilde y y = Some yt \<and> 0 < yt"
proof -
  have "0 < prod_list y" using assms(2) by (rule prod_list_pos_real)
  then have "0 < power_int (prod_list y) (1 div int (length y))" by simp
  then show ?thesis using assms(1) by (simp add: ytilde_def ptilde_def Let_def)
qed

lemma residual_same:
  assumes "0 \<le> i" and "i < int (length y)" and "\<And>v. v \<in> set y \<Longrightarrow> 0 < v" and "0 < yt" and "0 < var"
  shows "residual y y yt yt var i = Some 0"
proof -
  have "0 < y ! nat i" using assms(1,2) by (intro assms(3) nth_mem) simp
  then have "0 < y ! nat i / yt" using assms(4) by simp
  then show ?thesis using assms(1,2,4,5)
    by (simp add: residual_def rdiv_def rlog_def square_def)
qed

lemma nld_loop_same:
  assumes "0 \<le> i" and "i \<le> int (length y)" and "\<And>v. v \<in> set y \<Longrightarrow> 0 < v" and "0 < yt" and "0 < var"
  shows "nld_loop y y yt yt var (int (length y)) i nld = Some nld"
  using assms(1,2)
proof (induction "nat (int (length y) - i)" arbitrary: i)
  case 0
  then have "\<not> i < int (length y)" by simp
  then show ?case by (subst nld_loop.simps) simp
next
  case (Suc n)
  then have lt: "i < int (length y)" by simp
  have r: "residual y y yt yt var i = Some 0"
    using Suc.prems(1) lt assms(3,4,5) by (rule residual_same)
  have "nld_loop y y yt yt var (int (length y)) (i + 1) nld = Some nld"
    using Suc.hyps(2) Suc.prems lt by (intro Suc.hyps(1)) simp_all
  then show ?case
    by (subst nld_loop.simps) (simp add: lt r)
qed

text \<open>
  C8. For \<open>y\<close> of length \<open>N \<ge> 1\<close> with all entries strictly positive and \<open>var > 0\<close>,
  \<open>negLogLogisticNormal(y, y, var)\<close> returns exactly \<open>(N-1) * log(var) / 2\<close>: every residual
  is zero.
\<close>

theorem negLogLogisticNormal_same:
  assumes "1 \<le> length y" and "\<forall>v\<in>set y. 0 < v" and "0 < var"
  shows "negLogLogisticNormal y y var = Some ((real (length y) - 1) * ln var / 2)"
proof -
  have ne: "y \<noteq> []" using assms(1) by auto
  from ytilde_pos [OF ne] assms(2) obtain yt
    where yt: "ytilde y = Some yt" "ptilde y y = Some yt" "0 < yt" by blast
  have "nld_loop y y yt yt var (int (length y)) 0 (0 + real_of_int (int (length y) - 1) * ln var / 2) =
          Some (0 + real_of_int (int (length y) - 1) * ln var / 2)"
    using assms(2) yt(3) assms(3) by (intro nld_loop_same) simp_all
  then show ?thesis
    using assms(3) yt(1,2) by (simp add: negLogLogisticNormal_def Let_def rlog_def)
qed

theorem negLogLogisticNormal_same_witness:
  "1 \<le> length [1 / 5, 4 / 5 :: real] \<and> (0::real) < 1 / 5 \<and> (0::real) < 4 / 5 \<and> (0::real) < 3 \<and>
   negLogLogisticNormal [1 / 5, 4 / 5] [1 / 5, 4 / 5] 3 = Some ((real (length [1 / 5, 4 / 5 :: real]) - 1) * ln 3 / 2)"
  using negLogLogisticNormal_same [where y = "[1 / 5, 4 / 5]" and var = 3]
  by simp

text \<open>
  C3. The claim asks for \<open>ytilde = (prod y)^(1/N)\<close> with the real reciprocal of \<open>N\<close>. In the
  source \<open>1/N\<close> divides two \<open>int\<close>s: at \<open>y = [1/5, 4/5]\<close>, \<open>p = [1/2, 1/2]\<close> the exponent is
  \<open>0\<close> and both \<open>ytilde\<close> and \<open>ptilde\<close> are 1, where the geometric means are \<open>2/5\<close> and
  \<open>1/2\<close>.
\<close>

theorem geometric_mean_integer_exponent:
  "ytilde [1 / 5, 4 / 5] = Some 1 \<and>
   prod_list [1 / 5, 4 / 5 :: real] powr (1 / real (length [1 / 5, 4 / 5 :: real])) = 2 / 5 \<and>
   ptilde [1 / 5, 4 / 5] [1 / 2, 1 / 2] = Some 1 \<and>
   prod_list [1 / 2, 1 / 2 :: real] powr (1 / real (length [1 / 5, 4 / 5 :: real])) = 1 / 2"
proof -
  have a: "(4 / 25 :: real) = (2 / 5) ^ 2" by (simp add: power2_eq_square)
  have b: "(1 / 4 :: real) = (1 / 2) ^ 2" by (simp add: power2_eq_square)
  have "sqrt (4 / 25) = 2 / 5" unfolding a by (simp del: power_divide)
  moreover have "sqrt (1 / 4) = 1 / 2" unfolding b by (simp del: power_divide)
  ultimately show ?thesis
    by (simp add: ytilde_def ptilde_def powr_half_sqrt)
qed

end
